theory Spec2Isabelle
  imports Main "HOL-Library.Word" "HOL-Library.Sublist" "HOL-Library.AList"
begin

section \<open>freedns-go: the server of \<^verbatim>\<open>freedns/freedns.go\<close>\<close>

subsection \<open>DNS messages (the parts of \<^verbatim>\<open>github.com/miekg/dns\<close> the server uses)\<close>

text \<open>
  \<^verbatim>\<open>dns.Question\<close>: \<^verbatim>\<open>Name string; Qtype uint16; Qclass uint16\<close>.
\<close>

record Question =
  Name :: string
  Qtype :: "16 word"
  Qclass :: "16 word"

text \<open>
  A resource record. The library's \<^verbatim>\<open>dns.RR\<close> is an interface over one struct per
  record type; the server only needs the header's TTL and the address of an A or AAAA
  record, everything else is kept as opaque bytes.
\<close>

datatype IP = IPv4 "32 word" | IPv6 "128 word"

datatype RData = A_data "32 word" | AAAA_data "128 word" | Other_data "16 word" "8 word list"

record RR =
  rr_name :: string
  rr_class :: "16 word"
  rr_ttl :: "32 word"
  rr_data :: RData

text \<open>
  \<^verbatim>\<open>dns.Msg\<close>: the header \<^verbatim>\<open>MsgHdr\<close> (embedded), \<^verbatim>\<open>Compress\<close> and the four sections.
  \<^verbatim>\<open>Opcode\<close> and \<^verbatim>\<open>Rcode\<close> are Go \<^verbatim>\<open>int\<close>s on which no arithmetic is done. The field
  \<^verbatim>\<open>Id\<close> is called \<open>Id_m\<close> here. Messages are values: a \<^verbatim>\<open>*dns.Msg\<close> that may be nil is a
  \<open>Msg option\<close>.
\<close>

record Msg =
  Id_m :: "16 word"
  Response :: bool
  Opcode :: int
  Authoritative :: bool
  Truncated :: bool
  RecursionDesired :: bool
  RecursionAvailable :: bool
  Zero :: bool
  AuthenticatedData :: bool
  CheckingDisabled :: bool
  Rcode :: int
  Compress :: bool
  Question :: "Question list"
  Answer :: "RR list"
  Ns :: "RR list"
  Extra :: "RR list"

text \<open>The library's constants.\<close>

definition RcodeSuccess :: int where
  "RcodeSuccess = 0"

definition RcodeServerFailure :: int where
  "RcodeServerFailure = 2"

definition RcodeBadName :: int where
  "RcodeBadName = 20"

definition OpcodeQuery :: int where
  "OpcodeQuery = 0"

definition TypeA :: "16 word" where
  "TypeA = 1"

definition TypeAAAA :: "16 word" where
  "TypeAAAA = 28"

text \<open>The zero value \<^verbatim>\<open>&dns.Msg{}\<close>.\<close>

definition empty_Msg :: Msg where
  "empty_Msg = \<lparr>Id_m = 0, Response = False, Opcode = 0, Authoritative = False,
     Truncated = False, RecursionDesired = False, RecursionAvailable = False, Zero = False,
     AuthenticatedData = False, CheckingDisabled = False, Rcode = 0, Compress = False,
     Question = [], Answer = [], Ns = [], Extra = []\<rparr>"

text \<open>
  \<^verbatim>\<open>(*Msg).SetReply\<close> of the library: copies the request's id and opcode, sets the
  response bit, copies the RD and CD bits of a standard query, sets the Rcode to
  \<^verbatim>\<open>RcodeSuccess\<close> and copies the first question.
\<close>

definition SetReply :: "Msg \<Rightarrow> Msg \<Rightarrow> Msg" where
  "SetReply m request =
     (let m = m\<lparr>Id_m := Id_m request\<rparr>;
          m = m\<lparr>Response := True\<rparr>;
          m = m\<lparr>Opcode := Opcode request\<rparr>;
          m = (if Opcode m = OpcodeQuery
               then m\<lparr>RecursionDesired := RecursionDesired request,
                      CheckingDisabled := CheckingDisabled request\<rparr>
               else m);
          m = m\<lparr>Rcode := RcodeSuccess\<rparr>
      in (case Question request of
            [] \<Rightarrow> m
          | q # _ \<Rightarrow> m\<lparr>Question := [q]\<rparr>))"

text \<open>\<^verbatim>\<open>(*Msg).SetRcode\<close> of the library: \<^verbatim>\<open>SetReply\<close>, then the given Rcode.\<close>

definition SetRcode :: "Msg \<Rightarrow> Msg \<Rightarrow> int \<Rightarrow> Msg" where
  "SetRcode m request rcode = (SetReply m request)\<lparr>Rcode := rcode\<rparr>"

subsection \<open>Configuration and server state\<close>

record Config =
  FastDNS :: string
  CleanDNS :: string
  Listen :: string
  CacheCap :: int
  LogLevel :: string

text \<open>
  \<^verbatim>\<open>dns.Server\<close> as \<^verbatim>\<open>NewServer\<close> fills it. The handler is the closure
  \<^verbatim>\<open>func(w, req) { s.handle(w, req, net) }\<close>; \<open>Handler\<close> holds the \<^verbatim>\<open>net\<close> it passes on.
\<close>

record dns_Server =
  Addr :: string
  Net :: string
  Handler :: string

text \<open>
  The \<^verbatim>\<open>Server\<close> struct. The types of the cache (\<^verbatim>\<open>*dnsCache\<close>) and of the resolver
  (\<^verbatim>\<open>*spoofingProofResolver\<close>) are parameters: \<open>'c\<close> is the state of the cache, \<open>'r\<close> the
  state of the resolver together with the upstreams it talks to.
\<close>

record ('c, 'r) Server =
  config :: Config
  udpServer :: dns_Server
  tcpServer :: dns_Server
  resolver :: 'r
  recordsCache :: 'c

type_synonym Error = string

datatype Level = PanicLevel | FatalLevel | ErrorLevel | WarnLevel | InfoLevel | DebugLevel | TraceLevel

text \<open>Run-time panics of the Go code.\<close>

datatype panic = IndexOutOfRange | NilDereference

text \<open>
  What the server does to the outside, in order: calls of the cache and of the resolver,
  log entries (level and fields), messages written to the \<^verbatim>\<open>dns.ResponseWriter\<close>, and
  goroutines started with \<^verbatim>\<open>go\<close>. The only goroutine \<^verbatim>\<open>lookup\<close> starts is its refresh
  closure, which captures \<^verbatim>\<open>req\<close> and \<^verbatim>\<open>net\<close>.
\<close>

datatype task = Refresh Msg string

datatype event =
    CacheLookup Question bool string
  | CacheSet Msg string
  | Resolve Question bool string
  | LogEntry Level "(string \<times> string) list"
  | WriteMsg Msg
  | Go task

text \<open>
  The functions \<^verbatim>\<open>freedns.go\<close> calls and does not define: the methods and constructors
  of the cache and of the resolver, \<^verbatim>\<open>logrus.ParseLevel\<close> (\<open>None\<close> is a parse error) and
  the library's tables \<^verbatim>\<open>dns.TypeToString\<close> and \<^verbatim>\<open>dns.RcodeToString\<close>.
\<close>

record ('c, 'r) deps =
  dnsCache_lookup :: "Question \<Rightarrow> bool \<Rightarrow> string \<Rightarrow> 'c \<Rightarrow> (Msg option \<times> bool) \<times> 'c"
  dnsCache_set :: "Msg \<Rightarrow> string \<Rightarrow> 'c \<Rightarrow> 'c"
  spoofingProofResolver_resolve ::
    "Question \<Rightarrow> bool \<Rightarrow> string \<Rightarrow> 'r \<Rightarrow> (Msg option \<times> string) \<times> 'r"
  newDNSCache :: "int \<Rightarrow> 'c"
  newSpoofingProofResolver :: "string \<Rightarrow> string \<Rightarrow> int \<Rightarrow> 'r"
  ParseLevel :: "string \<Rightarrow> Level option"
  TypeToString :: "16 word \<Rightarrow> string"
  RcodeToString :: "int \<Rightarrow> string"

subsection \<open>\<^verbatim>\<open>appendDefaultPort\<close> and \<^verbatim>\<open>NewServer\<close>\<close>

text \<open>\<^verbatim>\<open>strings.Contains(s, substr)\<close>: \<open>substr\<close> occurs in \<open>s\<close> as a contiguous block.\<close>

fun Contains :: "string \<Rightarrow> string \<Rightarrow> bool" where
  "Contains [] substr = (substr = [])"
| "Contains (c # cs) substr = (prefix substr (c # cs) \<or> Contains cs substr)"

definition appendDefaultPort :: "string \<Rightarrow> string" where
  "appendDefaultPort ip =
     (if Contains ip ''.'' \<and> \<not> Contains ip '':'' then ip @ '':53'' else ip)"

text \<open>
  \<^verbatim>\<open>NewServer\<close>. The global logger's level is passed in and returned. The result pair is
  Go's \<^verbatim>\<open>(*Server, error)\<close>: \<open>None\<close> is nil.
\<close>

definition NewServer ::
  "('c, 'r) deps \<Rightarrow> Config \<Rightarrow> Level \<Rightarrow> (('c, 'r) Server option \<times> Error option) \<times> Level" where
  "NewServer d cfg log_level =
     (let cfg = (if Listen cfg = [] then cfg\<lparr>Listen := ''127.0.0.1''\<rparr> else cfg);
          log_level = (case ParseLevel d (LogLevel cfg) of
                         Some level \<Rightarrow> level
                       | None \<Rightarrow> log_level);
          cfg = cfg\<lparr>Listen := appendDefaultPort (Listen cfg)\<rparr>;
          cfg = cfg\<lparr>FastDNS := appendDefaultPort (FastDNS cfg)\<rparr>;
          cfg = cfg\<lparr>CleanDNS := appendDefaultPort (CleanDNS cfg)\<rparr>;
          s = \<lparr>config = cfg,
               udpServer = \<lparr>Addr = Listen cfg, Net = ''udp'', Handler = ''udp''\<rparr>,
               tcpServer = \<lparr>Addr = Listen cfg, Net = ''tcp'', Handler = ''tcp''\<rparr>,
               resolver = newSpoofingProofResolver d (FastDNS cfg) (CleanDNS cfg) (CacheCap cfg),
               recordsCache = newDNSCache d (CacheCap cfg)\<rparr>
      in ((Some s, None), log_level))"

subsection \<open>\<^verbatim>\<open>Server.lookup\<close> and \<^verbatim>\<open>Server.handle\<close>\<close>

text \<open>
  The log fields of the two \<^verbatim>\<open>update_cache\<close> entries and of the entry \<^verbatim>\<open>handle\<close> writes.
\<close>

definition update_cache_fields :: "('c, 'r) deps \<Rightarrow> Question \<Rightarrow> string \<Rightarrow> (string \<times> string) list" where
  "update_cache_fields d q upstream =
     [(''op'', ''update_cache''), (''domain'', Name q),
      (''type'', TypeToString d (Qtype q)), (''upstream'', upstream)]"

definition handle_fields :: "('c, 'r) deps \<Rightarrow> Question \<Rightarrow> string \<Rightarrow> Msg \<Rightarrow> (string \<times> string) list" where
  "handle_fields d q upstream res =
     [(''op'', ''handle''), (''domain'', Name q), (''type'', TypeToString d (Qtype q)),
      (''upstream'', upstream), (''status'', RcodeToString d (Rcode res))]"

text \<open>
  Lines 184 to 186 of \<^verbatim>\<open>lookup\<close>: save the Rcode, \<^verbatim>\<open>SetReply\<close>, put the Rcode back.
\<close>

definition reply_keeping_rcode :: "Msg \<Rightarrow> Msg \<Rightarrow> Msg" where
  "reply_keeping_rcode res req =
     (let rcode = Rcode res;
          res = SetReply res req;
          res = res\<lparr>Rcode := rcode\<rparr>
      in res)"

text \<open>
  \<^verbatim>\<open>Server.lookup\<close>. It returns the result (or the panic), the server with the new states of
  the cache and of the resolver, and the events in the order they happen.
  \<^verbatim>\<open>req.Question[0]\<close> panics on an empty question section, \<^verbatim>\<open>res.Rcode\<close> on a nil result of
  the resolver. The goroutine of the stale branch is not run here: it is the event
  \<open>Go (Refresh req net)\<close>, and \<open>Server_lookup_func1\<close> below is its body.
  In Go \<^verbatim>\<open>res\<close> is a pointer, and \<^verbatim>\<open>SetReply\<close> writes through it; whether the cache keeps
  that very object is decided by the cache, which is not among the sources, so here the
  header update acts on the returned message only.
\<close>

definition Server_lookup ::
  "('c, 'r) deps \<Rightarrow> ('c, 'r) Server \<Rightarrow> Msg \<Rightarrow> string \<Rightarrow>
     (panic + (Msg \<times> string)) \<times> ('c, 'r) Server \<times> event list" where
  "Server_lookup d s req net =
     (case Question req of
        [] \<Rightarrow> (Inl IndexOutOfRange, s, [])
      | q # _ \<Rightarrow>
          (case dnsCache_lookup d q (RecursionDesired req) net (recordsCache s) of
             ((Some res, upd), c) \<Rightarrow>
               (Inr (reply_keeping_rcode res req, ''cache''),
                s\<lparr>recordsCache := c\<rparr>,
                CacheLookup q (RecursionDesired req) net #
                  (if upd then [Go (Refresh req net)] else []))
           | ((None, upd), c) \<Rightarrow>
               (case spoofingProofResolver_resolve d q (RecursionDesired req) net (resolver s) of
                  ((None, upstream), r) \<Rightarrow>
                    (Inl NilDereference,
                     s\<lparr>recordsCache := c, resolver := r\<rparr>,
                     [CacheLookup q (RecursionDesired req) net,
                      Resolve q (RecursionDesired req) net])
                | ((Some res, upstream), r) \<Rightarrow>
                    if Rcode res = RcodeSuccess
                    then (Inr (reply_keeping_rcode res req, upstream),
                          s\<lparr>recordsCache := dnsCache_set d res net c, resolver := r\<rparr>,
                          [CacheLookup q (RecursionDesired req) net,
                           Resolve q (RecursionDesired req) net,
                           LogEntry InfoLevel (update_cache_fields d q upstream),
                           CacheSet res net])
                    else (Inr (reply_keeping_rcode res req, upstream),
                          s\<lparr>recordsCache := c, resolver := r\<rparr>,
                          [CacheLookup q (RecursionDesired req) net,
                           Resolve q (RecursionDesired req) net]))))"

text \<open>
  The body of the goroutine (lines 156 to 167), run on the server as it is when the
  scheduler runs it.
\<close>

definition Server_lookup_func1 ::
  "('c, 'r) deps \<Rightarrow> ('c, 'r) Server \<Rightarrow> Msg \<Rightarrow> string \<Rightarrow>
     (panic + unit) \<times> ('c, 'r) Server \<times> event list" where
  "Server_lookup_func1 d s req net =
     (case Question req of
        [] \<Rightarrow> (Inl IndexOutOfRange, s, [])
      | q # _ \<Rightarrow>
          (case spoofingProofResolver_resolve d q (RecursionDesired req) net (resolver s) of
             ((None, u), rs) \<Rightarrow>
               (Inl NilDereference, s\<lparr>resolver := rs\<rparr>, [Resolve q (RecursionDesired req) net])
           | ((Some r, u), rs) \<Rightarrow>
               if Rcode r = RcodeSuccess
               then (Inr (),
                     s\<lparr>resolver := rs, recordsCache := dnsCache_set d r net (recordsCache s)\<rparr>,
                     [Resolve q (RecursionDesired req) net,
                      LogEntry InfoLevel (update_cache_fields d q u),
                      CacheSet r net])
               else (Inr (), s\<lparr>resolver := rs\<rparr>, [Resolve q (RecursionDesired req) net])))"

text \<open>Running a goroutine that was started.\<close>

fun run_task ::
  "('c, 'r) deps \<Rightarrow> ('c, 'r) Server \<Rightarrow> task \<Rightarrow> (panic + unit) \<times> ('c, 'r) Server \<times> event list" where
  "run_task d s (Refresh req net) = Server_lookup_func1 d s req net"

text \<open>\<^verbatim>\<open>Server.handle\<close>; the error \<^verbatim>\<open>WriteMsg\<close> returns is dropped by the code.\<close>

definition Server_handle ::
  "('c, 'r) deps \<Rightarrow> ('c, 'r) Server \<Rightarrow> Msg \<Rightarrow> string \<Rightarrow>
     (panic + unit) \<times> ('c, 'r) Server \<times> event list" where
  "Server_handle d s req net =
     (let res = empty_Msg in
      if length (Question req) < 1
      then (let res = SetRcode res req RcodeBadName
            in (Inr (), s,
                [WriteMsg res,
                 LogEntry WarnLevel [(''op'', ''handle''), (''msg'', ''request without questions'')]]))
      else (case Server_lookup d s req net of
              (Inl p, s', evs) \<Rightarrow> (Inl p, s', evs)
            | (Inr (res, upstream), s', evs) \<Rightarrow>
                (Inr (), s',
                 evs @ [WriteMsg res,
                        LogEntry (if Rcode res = RcodeSuccess then InfoLevel else WarnLevel)
                          (handle_fields d (hd (Question req)) upstream res)])))"

section \<open>The cache and the resolver, from the specification\<close>

text \<open>
  \<^verbatim>\<open>freedns.go\<close> only calls the cache and the resolver; the files that define
  \<^verbatim>\<open>dnsCache\<close> and \<^verbatim>\<open>spoofingProofResolver\<close> are not among the sources. The definitions
  of this section follow sections 3, 4.2 and 4.3 of the specification.
\<close>

subsection \<open>The lazy cache\<close>

text \<open>
  Modelled from the spec: the key of the lazy cache, missing from the sources. Section 2:
  the store is keyed by (question name, type, class, recursion-desired flag, transport).
\<close>

type_synonym cache_key = "Question \<times> bool \<times> string"

text \<open>
  Modelled from the spec: the \<^verbatim>\<open>CacheEntry\<close> of section 3, missing from the sources. It owns
  one answer, an absolute expiry timestamp and a last-access timestamp. The answer is an
  option because section 4.3 speaks of an entry that "matches but was never populated".
  Timestamps are integers in the time unit of the TTLs.
\<close>

record CacheEntry =
  ce_answer :: "Msg option"
  ce_expiry :: int
  ce_lastAccess :: int

text \<open>
  Modelled from the spec: the cache of sections 3 and 4.3, missing from the sources: the
  capacity fixed at construction, the default TTL (section 9 leaves its value open) and
  the entries, oldest insertion first.
\<close>

record dnsCache =
  cache_cap :: int
  cache_defaultTTL :: nat
  cache_entries :: "(cache_key \<times> CacheEntry) list"

text \<open>
  Modelled from the spec: construction of the cache (\<^verbatim>\<open>newDNSCache\<close> is missing from the
  sources). Section 6: the cache starts empty; section 4.3: the capacity is fixed here.
\<close>

definition new_cache :: "int \<Rightarrow> nat \<Rightarrow> dnsCache" where
  "new_cache cap dflt = \<lparr>cache_cap = cap, cache_defaultTTL = dflt, cache_entries = []\<rparr>"

text \<open>
  Modelled from the spec: "all returned records" of an answer (section 3), for the cache
  and the resolver that are missing from the sources: the three record sections of the
  message.
\<close>

definition records :: "Msg \<Rightarrow> RR list" where
  "records m = Answer m @ Ns m @ Extra m"

text \<open>
  Modelled from the spec: the effective TTL of section 3, computed by the missing cache:
  the minimum TTL across all returned records; no record, or a minimum of zero, gives the
  default TTL.
\<close>

definition effectiveTTL :: "nat \<Rightarrow> Msg \<Rightarrow> nat" where
  "effectiveTTL dflt m =
     (case map (\<lambda>rr. unat (rr_ttl rr)) (records m) of
        [] \<Rightarrow> dflt
      | t # ts \<Rightarrow> (let mn = fold min ts t in if mn = 0 then dflt else mn))"

text \<open>
  Modelled from the spec: \<^verbatim>\<open>lookup\<close> of the missing cache (section 4.3) at time \<open>now\<close>.
  Absent means no entry, or an entry never populated. A present entry is returned
  whatever its expiry; \<open>needsRefresh\<close> is true iff the expiry timestamp is in the past
  (\<open>ce_expiry e < now\<close>); a successful lookup sets the last-access timestamp. The
  specification does not give \<open>needsRefresh\<close> of an absent entry; it is \<open>False\<close> here, and
  \<^verbatim>\<open>Server.lookup\<close> does not read it.
\<close>

definition cache_lookup :: "cache_key \<Rightarrow> int \<Rightarrow> dnsCache \<Rightarrow> (Msg option \<times> bool) \<times> dnsCache" where
  "cache_lookup k now c =
     (case map_of (cache_entries c) k of
        None \<Rightarrow> ((None, False), c)
      | Some e \<Rightarrow>
          (case ce_answer e of
             None \<Rightarrow> ((None, False), c)
           | Some a \<Rightarrow>
               ((Some a, ce_expiry e < now),
                c\<lparr>cache_entries := AList.update k (e\<lparr>ce_lastAccess := now\<rparr>) (cache_entries c)\<rparr>)))"

text \<open>
  Modelled from the spec: the choice of the entry to evict in the missing cache (sections
  3 and 4.3): the least-recently-used one, that is the one with the least last-access
  timestamp; of several with the same timestamp, the one inserted first.
\<close>

fun lru_victim :: "(cache_key \<times> CacheEntry) list \<Rightarrow> (cache_key \<times> CacheEntry) option" where
  "lru_victim [] = None"
| "lru_victim (x # xs) =
     (case lru_victim xs of
        None \<Rightarrow> Some x
      | Some y \<Rightarrow> if ce_lastAccess (snd x) \<le> ce_lastAccess (snd y) then Some x else Some y)"

text \<open>
  Modelled from the spec: eviction in the missing cache (section 4.3): the
  least-recently-used existing entry leaves the store; an empty store has none to evict.
\<close>

definition evict_lru :: "(cache_key \<times> CacheEntry) list \<Rightarrow> (cache_key \<times> CacheEntry) list" where
  "evict_lru es = (case lru_victim es of None \<Rightarrow> es | Some v \<Rightarrow> remove1 v es)"

text \<open>
  Modelled from the spec: \<^verbatim>\<open>set\<close> of the missing cache (section 4.3) at time \<open>now\<close>. It
  computes the effective TTL, creates or overwrites the entry of the key (expiry
  \<open>now + effective TTL\<close>, section 3) and, only on insertion of a brand-new key once the store
  is at capacity, first evicts the least-recently-used existing entry. It never fails.
\<close>

definition cache_set :: "cache_key \<Rightarrow> Msg \<Rightarrow> int \<Rightarrow> dnsCache \<Rightarrow> dnsCache" where
  "cache_set k a now c =
     (let e = \<lparr>ce_answer = Some a,
               ce_expiry = now + int (effectiveTTL (cache_defaultTTL c) a),
               ce_lastAccess = now\<rparr>;
          es = cache_entries c
      in (case map_of es k of
            Some _ \<Rightarrow> c\<lparr>cache_entries := AList.update k e es\<rparr>
          | None \<Rightarrow>
              c\<lparr>cache_entries :=
                  (if cache_cap c \<le> int (length es) then evict_lru es else es) @ [(k, e)]\<rparr>))"

text \<open>
  Modelled from the spec: a sequence of operations on the missing cache, each with the
  time at which it happens, as the callers of section 4.4 issue them.
\<close>

datatype cache_op = Lookup cache_key | Set cache_key Msg

text \<open>Modelled from the spec: the key an operation on the missing cache is about.\<close>

fun op_key :: "cache_op \<Rightarrow> cache_key" where
  "op_key (Lookup k) = k"
| "op_key (Set k a) = k"

text \<open>
  Modelled from the spec: one operation on the missing cache at its time; of a lookup only
  the effect on the cache is kept.
\<close>

fun apply_op :: "int \<times> cache_op \<Rightarrow> dnsCache \<Rightarrow> dnsCache" where
  "apply_op (now, Lookup k) c = snd (cache_lookup k now c)"
| "apply_op (now, Set k a) c = cache_set k a now c"

text \<open>Modelled from the spec: the operations on the missing cache, one after the other.\<close>

definition run_ops :: "(int \<times> cache_op) list \<Rightarrow> dnsCache \<Rightarrow> dnsCache" where
  "run_ops ops c = fold apply_op ops c"

text \<open>
  Modelled from the spec: the questions a sequence of operations on the missing cache
  inserts, in order.
\<close>

fun set_keys :: "(int \<times> cache_op) list \<Rightarrow> cache_key list" where
  "set_keys [] = []"
| "set_keys ((t, Set k a) # ops) = k # set_keys ops"
| "set_keys ((t, Lookup k) # ops) = set_keys ops"

subsection \<open>The resolver arbiter\<close>

text \<open>
  Modelled from the spec: which upstream the missing resolver queried (section 8 counts
  these calls).
\<close>

datatype upstream = Fast | Clean

text \<open>
  Modelled from the spec: an address-type query of section 4.2 (the resolver is missing
  from the sources): one for A or AAAA records.
\<close>

definition is_address_query :: "Question \<Rightarrow> bool" where
  "is_address_query q = (Qtype q = TypeA \<or> Qtype q = TypeAAAA)"

text \<open>
  Modelled from the spec: the resolved addresses of an answer (section 4.2, step 2), for
  the missing resolver: the addresses of its A and AAAA records.
\<close>

fun rr_address :: "RR \<Rightarrow> IP option" where
  "rr_address rr =
     (case rr_data rr of
        A_data a \<Rightarrow> Some (IPv4 a)
      | AAAA_data a \<Rightarrow> Some (IPv6 a)
      | Other_data t bs \<Rightarrow> None)"

text \<open>
  Modelled from the spec: all resolved addresses of an answer, for step 2 of section 4.2 in
  the missing resolver.
\<close>

definition addresses :: "Msg \<Rightarrow> IP list" where
  "addresses m = List.map_filter rr_address (records m)"

text \<open>
  Modelled from the spec: step 2 of section 4.2 in the missing resolver. If the fast
  answer's status is success and it contains at least one A/AAAA record, each resolved
  address is classified (\<open>isDomestic\<close> is the classifier of section 4.1, whose range table
  is not in the sources). The fast answer is trusted if any resolved address classifies as
  domestic, or the question is not an address-type query at all.
\<close>

definition classify_fast :: "(IP \<Rightarrow> bool) \<Rightarrow> Msg \<Rightarrow> bool list" where
  "classify_fast isDomestic a =
     (if Rcode a = RcodeSuccess \<and> addresses a \<noteq> [] then map isDomestic (addresses a) else [])"

text \<open>
  Modelled from the spec: the decision of step 2 of section 4.2 in the missing resolver, in
  the words of its second sentence: any resolved address classifies as domestic, or the
  question is not an address-type query at all.
\<close>

definition trust_fast :: "(IP \<Rightarrow> bool) \<Rightarrow> Question \<Rightarrow> Msg \<Rightarrow> bool" where
  "trust_fast isDomestic q a =
     (True \<in> set (classify_fast isDomestic a) \<or> \<not> is_address_query q)"

text \<open>
  Modelled from the spec: the server-failure answer of section 4.2, step 4, which the
  missing resolver returns when the clean upstream gives no answer.
\<close>

definition server_failure :: Msg where
  "server_failure = empty_Msg\<lparr>Rcode := RcodeServerFailure\<rparr>"

text \<open>
  Modelled from the spec: steps 3 and 4 of section 4.2 in the missing resolver: query the
  clean upstream and return its answer labeled \<open>clean\<close> whatever its status; a transport
  failure (\<open>None\<close>) of this last upstream is a server-failure answer.
\<close>

definition resolve_clean ::
  "(Question \<Rightarrow> bool \<Rightarrow> string \<Rightarrow> Msg option) \<Rightarrow> Question \<Rightarrow> bool \<Rightarrow> string \<Rightarrow>
     (Msg \<times> string) \<times> upstream list" where
  "resolve_clean cleanQ q rd net =
     (case cleanQ q rd net of
        Some b \<Rightarrow> ((b, ''clean''), [Fast, Clean])
      | None \<Rightarrow> ((server_failure, ''clean''), [Fast, Clean]))"

text \<open>
  Modelled from the spec: \<^verbatim>\<open>resolve\<close> of the missing resolver (section 4.2). \<open>fastQ\<close> and
  \<open>cleanQ\<close> are the two upstreams: what each answers to a question, \<open>None\<close> for a transport
  failure or time-out. The result is the answer, its label and the upstreams queried.
\<close>

definition resolve ::
  "(IP \<Rightarrow> bool) \<Rightarrow> (Question \<Rightarrow> bool \<Rightarrow> string \<Rightarrow> Msg option) \<Rightarrow>
     (Question \<Rightarrow> bool \<Rightarrow> string \<Rightarrow> Msg option) \<Rightarrow> Question \<Rightarrow> bool \<Rightarrow> string \<Rightarrow>
     (Msg \<times> string) \<times> upstream list" where
  "resolve isDomestic fastQ cleanQ q rd net =
     (case fastQ q rd net of
        None \<Rightarrow> resolve_clean cleanQ q rd net
      | Some a \<Rightarrow>
          if trust_fast isDomestic q a then ((a, ''fast''), [Fast])
          else resolve_clean cleanQ q rd net)"

section \<open>Example values and test doubles\<close>

text \<open>
  Concrete messages, questions and cache keys, and stand-ins for the cache, the
  resolver, the upstreams and the classifier, on which the theorems below are instantiated.
\<close>

definition q_example :: Question where
  "q_example = \<lparr>Name = ''example.test.'', Qtype = 1, Qclass = 1\<rparr>"

definition q_mx :: Question where
  "q_mx = \<lparr>Name = ''example.test.'', Qtype = 15, Qclass = 1\<rparr>"

definition req_example :: Msg where
  "req_example = empty_Msg\<lparr>Id_m := 7, RecursionDesired := True, Question := [q_example]\<rparr>"

definition failure_example :: Msg where
  "failure_example = empty_Msg\<lparr>Rcode := RcodeServerFailure\<rparr>"

definition success_example :: Msg where
  "success_example = empty_Msg\<lparr>Answer :=
     [\<lparr>rr_name = ''example.test.'', rr_class = 1, rr_ttl = 1, rr_data = A_data 0x01020304\<rparr>]\<rparr>"

definition cfg_example :: Config where
  "cfg_example = \<lparr>FastDNS = ''114.114.114.114'', CleanDNS = ''8.8.8.8:53'', Listen = [],
     CacheCap = 0, LogLevel = ''loud''\<rparr>"

definition key_example :: "string \<Rightarrow> cache_key" where
  "key_example name = (\<lparr>Name = name, Qtype = 1, Qclass = 1\<rparr>, True, ''udp'')"

definition stub_deps :: "Msg option \<Rightarrow> bool \<Rightarrow> Msg option \<Rightarrow> (Msg list, nat) deps" where
  "stub_deps hit upd reply =
     \<lparr>dnsCache_lookup = (\<lambda>q rd net c. ((hit, upd), c)),
      dnsCache_set = (\<lambda>m net c. m # c),
      spoofingProofResolver_resolve = (\<lambda>q rd net r. ((reply, ''fast''), Suc r)),
      newDNSCache = (\<lambda>cap. []),
      newSpoofingProofResolver = (\<lambda>fast clean cap. 0),
      ParseLevel = (\<lambda>l. if l = ''debug'' then Some DebugLevel else None),
      TypeToString = (\<lambda>t. if t = 1 then ''A'' else []),
      RcodeToString = (\<lambda>r. if r = 0 then ''NOERROR'' else [])\<rparr>"

definition stub_server :: "(Msg list, nat) Server" where
  "stub_server =
     \<lparr>config = \<lparr>FastDNS = ''114.114.114.114:53'', CleanDNS = ''8.8.8.8:53'',
                 Listen = ''127.0.0.1:53'', CacheCap = 2, LogLevel = []\<rparr>,
      udpServer = \<lparr>Addr = ''127.0.0.1:53'', Net = ''udp'', Handler = ''udp''\<rparr>,
      tcpServer = \<lparr>Addr = ''127.0.0.1:53'', Net = ''tcp'', Handler = ''tcp''\<rparr>,
      resolver = 0, recordsCache = []\<rparr>"

definition answers_with :: "Msg \<Rightarrow> Question \<Rightarrow> bool \<Rightarrow> string \<Rightarrow> Msg option" where
  "answers_with m q rd net = Some m"

definition unreachable :: "Question \<Rightarrow> bool \<Rightarrow> string \<Rightarrow> Msg option" where
  "unreachable q rd net = None"

definition foreign_only :: "IP \<Rightarrow> bool" where
  "foreign_only ip = False"

definition domestic_1_2 :: "IP \<Rightarrow> bool" where
  "domestic_1_2 ip = (case ip of IPv4 a \<Rightarrow> drop_bit 16 a = 0x0102 | IPv6 a \<Rightarrow> False)"

section \<open>Notions used in the proofs about the cache\<close>

text \<open>The keys the cache holds.\<close>

definition keyset :: "dnsCache \<Rightarrow> cache_key set" where
  "keyset c = fst ` set (cache_entries c)"

text \<open>Every entry holds an answer, as every entry \<open>cache_set\<close> writes does.\<close>

definition populated :: "dnsCache \<Rightarrow> bool" where
  "populated c = (\<forall>x \<in> set (cache_entries c). ce_answer (snd x) \<noteq> None)"

text \<open>
  The entry of key \<open>k1\<close> is the oldest insertion, was last accessed at \<open>t1\<close>, and no other
  entry was accessed before \<open>t1\<close>; the keys are distinct and within the capacity.
\<close>

definition oldest_first :: "cache_key \<Rightarrow> int \<Rightarrow> dnsCache \<Rightarrow> bool" where
  "oldest_first k1 t1 c =
     (case cache_entries c of
        [] \<Rightarrow> False
      | x # rest \<Rightarrow> fst x = k1 \<and> ce_lastAccess (snd x) = t1 \<and>
          (\<forall>y \<in> set rest. t1 \<le> ce_lastAccess (snd y)) \<and>
          distinct (map fst (cache_entries c)) \<and>
          int (length (cache_entries c)) \<le> cache_cap c)"

section \<open>Properties\<close>

subsection \<open>\<^verbatim>\<open>appendDefaultPort\<close> and \<^verbatim>\<open>NewServer\<close>\<close>

lemma Contains_single: "Contains s [c] \<longleftrightarrow> c \<in> set s"
  by (induction s) auto

text \<open>
  C9: \<^verbatim>\<open>appendDefaultPort\<close> is idempotent: applying it to its own result changes nothing,
  for every string.
\<close>

theorem appendDefaultPort_idem: "appendDefaultPort (appendDefaultPort s) = appendDefaultPort s"
  by (simp add: appendDefaultPort_def Contains_single)

text \<open>
  C10: \<^verbatim>\<open>NewServer\<close> never fails. For every configuration (and whatever the constructors
  of the cache and of the resolver return) the result is a server and a nil error; the
  listen address is the configured one, or \<open>127.0.0.1\<close> when it is empty, with the default
  port appended, and both \<^verbatim>\<open>dns.Server\<close>s listen there; a log level that does not parse
  leaves the logger's level as it was and is not reported.
\<close>

theorem NewServer_never_fails:
  "\<exists>s. fst (NewServer d cfg log_level) = (Some s, None)
       \<and> Listen (config s) = appendDefaultPort (if Listen cfg = [] then ''127.0.0.1'' else Listen cfg)
       \<and> (Listen cfg = [] \<longrightarrow> Listen (config s) = ''127.0.0.1:53'')
       \<and> Addr (udpServer s) = Listen (config s) \<and> Addr (tcpServer s) = Listen (config s)
       \<and> (ParseLevel d (LogLevel cfg) = None \<longrightarrow> snd (NewServer d cfg log_level) = log_level)"
  by (simp add: NewServer_def Let_def appendDefaultPort_def)

theorem NewServer_never_fails_witness:
  "Listen cfg_example = [] \<and> ParseLevel (stub_deps None False None) (LogLevel cfg_example) = None
   \<and> snd (fst (NewServer (stub_deps None False None) cfg_example InfoLevel)) = None
   \<and> map_option (\<lambda>s. Addr (udpServer s))
        (fst (fst (NewServer (stub_deps None False None) cfg_example InfoLevel))) = Some ''127.0.0.1:53''
   \<and> snd (NewServer (stub_deps None False None) cfg_example InfoLevel) = InfoLevel"
proof -
  have l: "Listen cfg_example = []" and p: "ParseLevel (stub_deps None False None) (LogLevel cfg_example) = None"
    by (simp_all add: cfg_example_def stub_deps_def)
  from NewServer_never_fails [of "stub_deps None False None" cfg_example InfoLevel] l p
  obtain s where "fst (NewServer (stub_deps None False None) cfg_example InfoLevel) = (Some s, None)"
    and "Listen (config s) = ''127.0.0.1:53''" and "Addr (udpServer s) = Listen (config s)"
    and "snd (NewServer (stub_deps None False None) cfg_example InfoLevel) = InfoLevel"
    by auto
  with l p show ?thesis by simp
qed

subsection \<open>The lookup orchestration\<close>

text \<open>
  C1: when the cache holds the question, \<^verbatim>\<open>Server.lookup\<close> returns the cached answer (with
  the reply header of the request, and its own Rcode and record sections) labeled
  \<open>cache\<close>. The only call it makes is the cache lookup: the state of the resolver is
  untouched. If the entry needs no refresh nothing else happens; if it does, the one
  further event is the start of the refresh goroutine, whose result the caller never
  sees. That goroutine, whenever it runs, calls the resolver and, only if the result's
  Rcode is success, calls \<^verbatim>\<open>set\<close> of the cache with the result.
\<close>

theorem lookup_cache_hit:
  assumes "Question req = q # qs"
    and "dnsCache_lookup d q (RecursionDesired req) net (recordsCache s) = ((Some a, upd), c)"
  shows "Server_lookup d s req net =
           (Inr (reply_keeping_rcode a req, ''cache''),
            s\<lparr>recordsCache := c\<rparr>,
            CacheLookup q (RecursionDesired req) net # (if upd then [Go (Refresh req net)] else []))
         \<and> Rcode (reply_keeping_rcode a req) = Rcode a
         \<and> Answer (reply_keeping_rcode a req) = Answer a
         \<and> Ns (reply_keeping_rcode a req) = Ns a
         \<and> Extra (reply_keeping_rcode a req) = Extra a
         \<and> (\<forall>s0 r u rs.
              spoofingProofResolver_resolve d q (RecursionDesired req) net (resolver s0) = ((Some r, u), rs) \<longrightarrow>
              run_task d s0 (Refresh req net) =
                (if Rcode r = RcodeSuccess
                 then (Inr (),
                       s0\<lparr>resolver := rs, recordsCache := dnsCache_set d r net (recordsCache s0)\<rparr>,
                       [Resolve q (RecursionDesired req) net,
                        LogEntry InfoLevel (update_cache_fields d q u),
                        CacheSet r net])
                 else (Inr (), s0\<lparr>resolver := rs\<rparr>, [Resolve q (RecursionDesired req) net])))"
  using assms
  by (simp add: Server_lookup_def Server_lookup_func1_def reply_keeping_rcode_def SetReply_def
      Let_def split: list.splits)

theorem lookup_cache_hit_witness:
  "Server_lookup (stub_deps (Some empty_Msg) True (Some failure_example)) stub_server req_example ''udp'' =
     (Inr (reply_keeping_rcode empty_Msg req_example, ''cache''), stub_server,
      [CacheLookup q_example True ''udp'', Go (Refresh req_example ''udp'')])
   \<and> run_task (stub_deps (Some empty_Msg) True (Some failure_example)) stub_server (Refresh req_example ''udp'') =
      (Inr (), stub_server\<lparr>resolver := 1\<rparr>, [Resolve q_example True ''udp''])"
  using lookup_cache_hit [of req_example q_example "[]" "stub_deps (Some empty_Msg) True (Some failure_example)"
      "''udp''" stub_server empty_Msg True "[]"]
  by (simp add: stub_deps_def req_example_def stub_server_def failure_example_def
      RcodeSuccess_def RcodeServerFailure_def empty_Msg_def)

text \<open>
  C2: when the cache does not hold the question, \<^verbatim>\<open>Server.lookup\<close> calls the resolver
  before it returns, calls \<^verbatim>\<open>set\<close> of the cache with the result if and only if the result's
  Rcode is success, and returns the resolver's answer with the resolver's label in every
  case, also when the answer carries a failure Rcode.
\<close>

theorem lookup_cache_miss:
  assumes "Question req = q # qs"
    and "dnsCache_lookup d q (RecursionDesired req) net (recordsCache s) = ((None, upd), c)"
    and "spoofingProofResolver_resolve d q (RecursionDesired req) net (resolver s) = ((Some r, u), rs)"
  shows "Server_lookup d s req net =
           (Inr (reply_keeping_rcode r req, u),
            s\<lparr>recordsCache := (if Rcode r = RcodeSuccess then dnsCache_set d r net c else c),
              resolver := rs\<rparr>,
            [CacheLookup q (RecursionDesired req) net, Resolve q (RecursionDesired req) net] @
            (if Rcode r = RcodeSuccess
             then [LogEntry InfoLevel (update_cache_fields d q u), CacheSet r net] else []))
         \<and> Rcode (reply_keeping_rcode r req) = Rcode r
         \<and> Answer (reply_keeping_rcode r req) = Answer r
         \<and> Ns (reply_keeping_rcode r req) = Ns r
         \<and> Extra (reply_keeping_rcode r req) = Extra r"
  using assms
  by (simp add: Server_lookup_def reply_keeping_rcode_def SetReply_def Let_def split: list.splits)

theorem lookup_cache_miss_witness:
  "Server_lookup (stub_deps None False (Some failure_example)) stub_server req_example ''udp'' =
     (Inr (reply_keeping_rcode failure_example req_example, ''fast''), stub_server\<lparr>resolver := 1\<rparr>,
      [CacheLookup q_example True ''udp'', Resolve q_example True ''udp''])
   \<and> Rcode (reply_keeping_rcode failure_example req_example) = RcodeServerFailure"
  using lookup_cache_miss [of req_example q_example "[]" "stub_deps None False (Some failure_example)"
      "''udp''" stub_server False "[]" failure_example "''fast''" 1]
  by (simp add: stub_deps_def req_example_def stub_server_def failure_example_def
      RcodeSuccess_def RcodeServerFailure_def empty_Msg_def)

lemma lookup_sets_only_success:
  "CacheSet m n \<in> set (snd (snd (Server_lookup d s req net))) \<Longrightarrow> Rcode m = RcodeSuccess"
  by (auto simp: Server_lookup_def split: list.splits prod.splits option.splits if_splits)

lemma func1_sets_only_success:
  "CacheSet m n \<in> set (snd (snd (Server_lookup_func1 d s req net))) \<Longrightarrow> Rcode m = RcodeSuccess"
  by (auto simp: Server_lookup_func1_def split: list.splits prod.splits option.splits if_splits)

lemma lookup_failure_cache:
  assumes "Question req = q # qs"
    and "dnsCache_lookup d q (RecursionDesired req) net (recordsCache s) = ((None, upd), c)"
    and "spoofingProofResolver_resolve d q (RecursionDesired req) net (resolver s) = ((Some r, u), rs)"
    and "Rcode r \<noteq> RcodeSuccess"
  shows "recordsCache (fst (snd (Server_lookup d s req net))) = c"
  using assms by (simp add: Server_lookup_def)

lemma func1_failure_cache:
  assumes "Question req = q # qs"
    and "spoofingProofResolver_resolve d q (RecursionDesired req) net (resolver s) = ((Some r, u), rs)"
    and "Rcode r \<noteq> RcodeSuccess"
  shows "recordsCache (fst (snd (Server_lookup_func1 d s req net))) = recordsCache s"
  using assms by (simp add: Server_lookup_func1_def)

text \<open>
  C3: on both paths of the orchestrator, the synchronous miss path and the refresh
  goroutine, every message passed to \<^verbatim>\<open>set\<close> of the cache has Rcode success. When the
  resolver's answer is not a success the cache is left exactly as the initial lookup left
  it (on the miss path) or as it was (in the goroutine), so a later lookup of the same
  question sees the cache as if the failed resolution had never happened.
\<close>

theorem failure_never_cached:
  "(\<forall>m n. CacheSet m n \<in> set (snd (snd (Server_lookup d s req net))) \<longrightarrow> Rcode m = RcodeSuccess)
   \<and> (\<forall>m n. CacheSet m n \<in> set (snd (snd (run_task d s (Refresh req net)))) \<longrightarrow> Rcode m = RcodeSuccess)
   \<and> (\<forall>q qs upd c r u rs.
        Question req = q # qs \<and>
        dnsCache_lookup d q (RecursionDesired req) net (recordsCache s) = ((None, upd), c) \<and>
        spoofingProofResolver_resolve d q (RecursionDesired req) net (resolver s) = ((Some r, u), rs) \<and>
        Rcode r \<noteq> RcodeSuccess \<longrightarrow>
        recordsCache (fst (snd (Server_lookup d s req net))) = c \<and>
        dnsCache_lookup d q (RecursionDesired req) net (recordsCache (fst (snd (Server_lookup d s req net)))) =
          dnsCache_lookup d q (RecursionDesired req) net c)
   \<and> (\<forall>q qs r u rs.
        Question req = q # qs \<and>
        spoofingProofResolver_resolve d q (RecursionDesired req) net (resolver s) = ((Some r, u), rs) \<and>
        Rcode r \<noteq> RcodeSuccess \<longrightarrow>
        recordsCache (fst (snd (run_task d s (Refresh req net)))) = recordsCache s)"
proof -
  have fg: "\<forall>m n. CacheSet m n \<in> set (snd (snd (Server_lookup d s req net))) \<longrightarrow> Rcode m = RcodeSuccess"
    using lookup_sets_only_success by blast
  have bg: "\<forall>m n. CacheSet m n \<in> set (snd (snd (run_task d s (Refresh req net)))) \<longrightarrow> Rcode m = RcodeSuccess"
    using func1_sets_only_success by (metis run_task.simps)
  have fg_cache: "\<forall>q qs upd c r u rs.
        Question req = q # qs \<and>
        dnsCache_lookup d q (RecursionDesired req) net (recordsCache s) = ((None, upd), c) \<and>
        spoofingProofResolver_resolve d q (RecursionDesired req) net (resolver s) = ((Some r, u), rs) \<and>
        Rcode r \<noteq> RcodeSuccess \<longrightarrow>
        recordsCache (fst (snd (Server_lookup d s req net))) = c \<and>
        dnsCache_lookup d q (RecursionDesired req) net (recordsCache (fst (snd (Server_lookup d s req net)))) =
          dnsCache_lookup d q (RecursionDesired req) net c"
    by (simp add: lookup_failure_cache)
  have bg_cache: "\<forall>q qs r u rs.
        Question req = q # qs \<and>
        spoofingProofResolver_resolve d q (RecursionDesired req) net (resolver s) = ((Some r, u), rs) \<and>
        Rcode r \<noteq> RcodeSuccess \<longrightarrow>
        recordsCache (fst (snd (run_task d s (Refresh req net)))) = recordsCache s"
    by (simp add: func1_failure_cache)
  from fg bg fg_cache bg_cache show ?thesis by (intro conjI)
qed

theorem failure_never_cached_witness:
  "recordsCache (fst (snd (Server_lookup (stub_deps None False (Some failure_example)) stub_server req_example ''udp''))) = []
   \<and> recordsCache (fst (snd (run_task (stub_deps None False (Some failure_example)) stub_server (Refresh req_example ''udp'')))) = []
   \<and> recordsCache (fst (snd (Server_lookup (stub_deps None False (Some success_example)) stub_server req_example ''udp''))) = [success_example]"
  using failure_never_cached [of "stub_deps None False (Some failure_example)" stub_server req_example "''udp''"]
  by (simp add: stub_deps_def req_example_def stub_server_def failure_example_def success_example_def
      Server_lookup_def Server_lookup_func1_def
      RcodeSuccess_def RcodeServerFailure_def empty_Msg_def)

text \<open>
  C7: for a request with an empty question section, \<^verbatim>\<open>Server.handle\<close> writes a reply whose
  Rcode is \<^verbatim>\<open>RcodeBadName\<close>, logs a warning and returns: the server's state is unchanged and
  no cache lookup, cache set, resolver call or goroutine is among its events.
\<close>

theorem handle_without_question:
  assumes "Question req = []"
  shows "Server_handle d s req net =
           (Inr (), s,
            [WriteMsg (SetRcode empty_Msg req RcodeBadName),
             LogEntry WarnLevel [(''op'', ''handle''), (''msg'', ''request without questions'')]])
         \<and> Rcode (SetRcode empty_Msg req RcodeBadName) = RcodeBadName
         \<and> (\<forall>e \<in> set (snd (snd (Server_handle d s req net))).
              (\<forall>q rd n. e \<noteq> CacheLookup q rd n) \<and> (\<forall>m n. e \<noteq> CacheSet m n) \<and>
              (\<forall>q rd n. e \<noteq> Resolve q rd n) \<and> (\<forall>t. e \<noteq> Go t))"
  using assms by (simp add: Server_handle_def SetRcode_def)

theorem handle_without_question_witness:
  "Server_handle (stub_deps (Some success_example) True (Some success_example)) stub_server empty_Msg ''tcp'' =
     (Inr (), stub_server,
      [WriteMsg (SetRcode empty_Msg empty_Msg RcodeBadName),
       LogEntry WarnLevel [(''op'', ''handle''), (''msg'', ''request without questions'')]])"
  using handle_without_question [of empty_Msg "stub_deps (Some success_example) True (Some success_example)"
      stub_server "''tcp''"]
  by (simp add: empty_Msg_def)

text \<open>
  C8: for a request with at least one question, the message \<^verbatim>\<open>Server.lookup\<close> returns is
  the answer obtained from the cache, or from the resolver on a miss, after \<^verbatim>\<open>SetReply\<close>,
  with the Rcode of that answer: \<^verbatim>\<open>SetReply\<close> alone would have made the Rcode success, and
  every other field is the one \<^verbatim>\<open>SetReply\<close> leaves.
\<close>

theorem lookup_preserves_rcode:
  assumes "Question req = q # qs"
    and "Server_lookup d s req net = (Inr (m, upstream), s', evs)"
  shows "\<exists>a. (fst (fst (dnsCache_lookup d q (RecursionDesired req) net (recordsCache s))) = Some a
              \<or> (fst (fst (dnsCache_lookup d q (RecursionDesired req) net (recordsCache s))) = None \<and>
                 fst (fst (spoofingProofResolver_resolve d q (RecursionDesired req) net (resolver s))) = Some a))
           \<and> Rcode m = Rcode a
           \<and> Rcode (SetReply a req) = RcodeSuccess
           \<and> m = (SetReply a req)\<lparr>Rcode := Rcode a\<rparr>"
  using assms
  by (auto simp: Server_lookup_def reply_keeping_rcode_def SetReply_def Let_def
      split: prod.splits option.splits if_splits)

theorem lookup_preserves_rcode_witness:
  "Question req_example = [q_example]
   \<and> Server_lookup (stub_deps None False (Some failure_example)) stub_server req_example ''udp'' =
     (Inr (reply_keeping_rcode failure_example req_example, ''fast''), stub_server\<lparr>resolver := 1\<rparr>,
      [CacheLookup q_example True ''udp'', Resolve q_example True ''udp''])
   \<and> Rcode (reply_keeping_rcode failure_example req_example) = RcodeServerFailure
   \<and> Rcode (SetReply failure_example req_example) = RcodeSuccess"
proof -
  have q: "Question req_example = q_example # []"
    by (simp add: req_example_def)
  have l: "Server_lookup (stub_deps None False (Some failure_example)) stub_server req_example ''udp'' =
     (Inr (reply_keeping_rcode failure_example req_example, ''fast''), stub_server\<lparr>resolver := 1\<rparr>,
      [CacheLookup q_example True ''udp'', Resolve q_example True ''udp''])"
    by (simp add: Server_lookup_def stub_deps_def req_example_def stub_server_def failure_example_def
      RcodeSuccess_def RcodeServerFailure_def empty_Msg_def)
  from lookup_preserves_rcode [OF q l] obtain a where
    a: "fst (fst (dnsCache_lookup (stub_deps None False (Some failure_example)) q_example
                   (RecursionDesired req_example) ''udp'' (recordsCache stub_server))) = Some a
        \<or> fst (fst (spoofingProofResolver_resolve (stub_deps None False (Some failure_example)) q_example
                   (RecursionDesired req_example) ''udp'' (resolver stub_server))) = Some a"
    and r: "Rcode (reply_keeping_rcode failure_example req_example) = Rcode a"
    and r0: "Rcode (SetReply a req_example) = RcodeSuccess"
    by blast
  from a have "a = failure_example"
    by (simp add: stub_deps_def)
  with r r0 q l show ?thesis
    by (simp add: failure_example_def)
qed

subsection \<open>The resolver arbiter\<close>

lemma trust_fast_iff:
  "trust_fast isDomestic q a \<longleftrightarrow>
     \<not> is_address_query q \<or> (Rcode a = RcodeSuccess \<and> (\<exists>ip \<in> set (addresses a). isDomestic ip))"
  by (auto simp: trust_fast_def classify_fast_def)

text \<open>
  C4, as amended: \<open>resolve\<close> returns the fast upstream's answer labeled \<open>fast\<close>, without
  querying the clean upstream, when the fast upstream answered and either the question is
  not an address-type query (whatever the status of the fast answer), or the answer has
  success status and contains at least one address record classified as domestic. In every
  other case (the fast upstream did not answer, or the question is an address-type query
  and the fast answer has a non-success status or no domestic address) it queries the clean
  upstream and returns the clean answer labeled \<open>clean\<close> whatever its status; if the clean
  upstream does not answer either, the result is the server-failure answer.
\<close>

theorem resolve_arbitration:
  "(\<forall>a. fastQ q rd net = Some a \<and>
        (\<not> is_address_query q \<or>
         (Rcode a = RcodeSuccess \<and> (\<exists>ip \<in> set (addresses a). isDomestic ip))) \<longrightarrow>
        resolve isDomestic fastQ cleanQ q rd net = ((a, ''fast''), [Fast]))
   \<and> (fastQ q rd net = None \<or>
       (\<exists>a. fastQ q rd net = Some a \<and> is_address_query q \<and>
            \<not> (Rcode a = RcodeSuccess \<and> (\<exists>ip \<in> set (addresses a). isDomestic ip))) \<longrightarrow>
       (\<forall>b. cleanQ q rd net = Some b \<longrightarrow>
            resolve isDomestic fastQ cleanQ q rd net = ((b, ''clean''), [Fast, Clean])) \<and>
       (cleanQ q rd net = None \<longrightarrow>
            resolve isDomestic fastQ cleanQ q rd net = ((server_failure, ''clean''), [Fast, Clean])))"
  by (auto simp: resolve_def resolve_clean_def trust_fast_iff)

theorem resolve_arbitration_witness:
  "resolve domestic_1_2 (answers_with success_example) unreachable q_example True ''udp'' =
     ((success_example, ''fast''), [Fast])
   \<and> resolve foreign_only (answers_with success_example) (answers_with failure_example) q_example True ''udp'' =
     ((failure_example, ''clean''), [Fast, Clean])
   \<and> resolve foreign_only unreachable unreachable q_example True ''udp'' =
     ((server_failure, ''clean''), [Fast, Clean])"
  using resolve_arbitration [of "answers_with success_example" q_example True "''udp''" domestic_1_2 unreachable]
    resolve_arbitration [of "answers_with success_example" q_example True "''udp''" foreign_only
      "answers_with failure_example"]
    resolve_arbitration [of unreachable q_example True "''udp''" foreign_only unreachable]
  by (simp add: answers_with_def unreachable_def q_example_def success_example_def failure_example_def
      is_address_query_def TypeA_def TypeAAAA_def addresses_def records_def
      empty_Msg_def RcodeSuccess_def RcodeServerFailure_def domestic_1_2_def foreign_only_def)

text \<open>
  C4, as stated, fails: it sends every case in which the fast answer is not a success to
  the clean upstream. For an MX question that the fast upstream answers with a
  server-failure status, step 2 of section 4.2 trusts the fast answer (the question is not
  an address-type query): the result is labeled \<open>fast\<close> and the clean upstream is not
  queried.
\<close>

theorem resolve_non_address_failure_counterexample:
  "Rcode failure_example \<noteq> RcodeSuccess
   \<and> resolve foreign_only (answers_with failure_example) (answers_with success_example) q_mx True ''udp'' =
       ((failure_example, ''fast''), [Fast])"
  by (simp add: resolve_def trust_fast_def classify_fast_def is_address_query_def q_mx_def
      answers_with_def failure_example_def TypeA_def TypeAAAA_def RcodeSuccess_def
      RcodeServerFailure_def empty_Msg_def)

subsection \<open>The lazy cache\<close>

lemma map_of_evict_lru_None: "map_of es k = None \<Longrightarrow> map_of (evict_lru es) k = None"
proof -
  assume "map_of es k = None"
  then have "k \<notin> fst ` set es" by (simp add: map_of_eq_None_iff)
  moreover have "set (evict_lru es) \<subseteq> set es"
    using set_remove1_subset by (fastforce simp: evict_lru_def split: option.splits)
  ultimately have "k \<notin> fst ` set (evict_lru es)" by blast
  then show ?thesis by (simp add: map_of_eq_None_iff)
qed

lemma map_of_cache_set_same:
  "map_of (cache_entries (cache_set k a now c)) k =
     Some \<lparr>ce_answer = Some a, ce_expiry = now + int (effectiveTTL (cache_defaultTTL c) a),
            ce_lastAccess = now\<rparr>"
  by (auto simp: cache_set_def Let_def update_conv' map_add_def map_of_evict_lru_None
      split: option.splits)

text \<open>
  A lookup that misses leaves the cache as it was, so a lookup of the same key at any
  later time misses as well.
\<close>

lemma cache_lookup_miss_unchanged:
  assumes "fst (fst (cache_lookup k now c)) = None"
  shows "snd (cache_lookup k now c) = c" and "fst (fst (cache_lookup k later c)) = None"
  using assms by (auto simp: cache_lookup_def split: option.splits)

text \<open>
  C5: a lookup of a key whose entry is present returns that entry's answer whatever the
  expiry, and \<open>needsRefresh\<close> is true iff the expiry timestamp is before the time of the
  lookup. In particular, after a \<open>set\<close> at time \<open>t0\<close> of an answer whose effective TTL is one
  time unit, a lookup at time \<open>t\<close> is a hit with that answer, and it asks for a refresh
  exactly when \<open>t\<close> is later than the expiry \<open>t0 + 1\<close>.
\<close>

theorem cache_lookup_lazy:
  "(\<forall>e a. map_of (cache_entries c) k = Some e \<and> ce_answer e = Some a \<longrightarrow>
          fst (cache_lookup k now c) = (Some a, ce_expiry e < now))
   \<and> (effectiveTTL (cache_defaultTTL c) a = 1 \<longrightarrow>
        fst (cache_lookup k t (cache_set k a t0 c)) = (Some a, t0 + 1 < t))"
  by (simp add: cache_lookup_def map_of_cache_set_same)

theorem cache_lookup_lazy_witness:
  "effectiveTTL 30 success_example = 1
   \<and> fst (cache_lookup (q_example, True, ''udp'') 12
           (cache_set (q_example, True, ''udp'') success_example 10 (new_cache 2 30))) =
       (Some success_example, True)
   \<and> fst (cache_lookup (q_example, True, ''udp'') 11
           (cache_set (q_example, True, ''udp'') success_example 10 (new_cache 2 30))) =
       (Some success_example, False)"
proof -
  have ttl: "effectiveTTL (cache_defaultTTL (new_cache 2 30)) success_example = 1"
    by (simp add: effectiveTTL_def records_def success_example_def empty_Msg_def new_cache_def)
  from ttl cache_lookup_lazy [of "new_cache 2 30" "(q_example, True, ''udp'')" 0 success_example 12 10]
    cache_lookup_lazy [of "new_cache 2 30" "(q_example, True, ''udp'')" 0 success_example 11 10]
  show ?thesis by (simp add: new_cache_def)
qed

lemma lru_victim_None_iff: "lru_victim es = None \<longleftrightarrow> es = []"
  by (induction es) (auto split: option.splits)

lemma lru_victim_in: "lru_victim es = Some v \<Longrightarrow> v \<in> set es"
  by (induction es arbitrary: v) (auto split: option.splits if_splits)

lemma lru_victim_least_all:
  "lru_victim es = Some v \<Longrightarrow> \<forall>x \<in> set es. ce_lastAccess (snd v) \<le> ce_lastAccess (snd x)"
proof (induction es arbitrary: v)
  case Nil
  then show ?case by simp
next
  case (Cons y ys)
  show ?case
  proof (cases "lru_victim ys")
    case None
    then have "ys = []" by (simp add: lru_victim_None_iff)
    with Cons.prems None show ?thesis by simp
  next
    case (Some w)
    have w: "\<forall>z \<in> set ys. ce_lastAccess (snd w) \<le> ce_lastAccess (snd z)"
      using Cons.IH [OF Some] .
    from Cons.prems Some w show ?thesis
      by (fastforce split: if_splits)
  qed
qed

lemma lru_victim_least:
  "lru_victim es = Some v \<Longrightarrow> x \<in> set es \<Longrightarrow> ce_lastAccess (snd v) \<le> ce_lastAccess (snd x)"
  using lru_victim_least_all by blast

lemma map_of_Some_key: "map_of es k = Some e \<Longrightarrow> k \<in> fst ` set es"
  by (metis map_of_eq_None_iff option.distinct(1))

lemma lru_victim_head:
  assumes "\<forall>y \<in> set rest. ce_lastAccess (snd x) \<le> ce_lastAccess (snd y)"
  shows "lru_victim (x # rest) = Some x"
proof (cases "lru_victim rest")
  case None
  then show ?thesis by simp
next
  case (Some w)
  then have "w \<in> set rest" by (rule lru_victim_in)
  with assms Some show ?thesis by simp
qed

lemma length_evict_lru: "es \<noteq> [] \<Longrightarrow> Suc (length (evict_lru es)) = length es"
proof -
  assume ne: "es \<noteq> []"
  then obtain v where v: "lru_victim es = Some v"
    using lru_victim_None_iff [of es] by (cases "lru_victim es") auto
  then have "v \<in> set es" by (rule lru_victim_in)
  then have "length (remove1 v es) = length es - 1" by (simp add: length_remove1)
  with v ne show ?thesis by (cases es) (simp_all add: evict_lru_def)
qed

lemma cache_cap_lookup [simp]: "cache_cap (snd (cache_lookup k now c)) = cache_cap c"
  by (simp add: cache_lookup_def split: option.splits)

lemma cache_cap_set [simp]: "cache_cap (cache_set k a now c) = cache_cap c"
  by (simp add: cache_set_def Let_def split: option.splits)

lemma cache_cap_apply_op [simp]: "cache_cap (apply_op op c) = cache_cap c"
proof (cases op)
  case (Pair now oper)
  then show ?thesis by (cases oper) simp_all
qed

lemma cache_cap_run_ops [simp]: "cache_cap (run_ops ops c) = cache_cap c"
  unfolding run_ops_def by (induction ops arbitrary: c) simp_all

lemma length_update_present: "map_of es k = Some e \<Longrightarrow> length (AList.update k v es) = length es"
proof -
  assume "map_of es k = Some e"
  then have "k \<in> set (map fst es)"
    by (simp add: map_of_Some_key)
  then have "map fst (AList.update k v es) = map fst es"
    by (simp add: update_keys)
  then show ?thesis by (metis length_map)
qed

lemma length_cache_lookup [simp]:
  "length (cache_entries (snd (cache_lookup k now c))) = length (cache_entries c)"
  by (simp add: cache_lookup_def length_update_present split: option.splits)

lemma length_cache_set_bound:
  assumes "1 \<le> cache_cap c" and "int (length (cache_entries c)) \<le> cache_cap c"
  shows "int (length (cache_entries (cache_set k a now c))) \<le> cache_cap c"
proof (cases "map_of (cache_entries c) k")
  case (Some e)
  with assms show ?thesis by (simp add: cache_set_def Let_def length_update_present)
next
  case None
  show ?thesis
  proof (cases "cache_cap c \<le> int (length (cache_entries c))")
    case True
    with assms have "cache_entries c \<noteq> []" by auto
    then have "Suc (length (evict_lru (cache_entries c))) = length (cache_entries c)"
      by (rule length_evict_lru)
    with None True assms show ?thesis by (simp add: cache_set_def Let_def)
  next
    case False
    with None show ?thesis by (simp add: cache_set_def Let_def)
  qed
qed

lemma length_apply_op_bound:
  assumes "1 \<le> cache_cap c" and "int (length (cache_entries c)) \<le> cache_cap c"
  shows "int (length (cache_entries (apply_op op c))) \<le> cache_cap c"
proof (cases op)
  case (Pair now oper)
  with assms show ?thesis by (cases oper) (simp_all add: length_cache_set_bound)
qed

lemma length_run_ops_bound:
  assumes "1 \<le> cache_cap c" and "int (length (cache_entries c)) \<le> cache_cap c"
  shows "int (length (cache_entries (run_ops ops c))) \<le> cache_cap c"
  using assms unfolding run_ops_def
proof (induction ops arbitrary: c)
  case Nil
  then show ?case by simp
next
  case (Cons op ops)
  have "1 \<le> cache_cap (apply_op op c)" using Cons.prems by simp
  moreover have "int (length (cache_entries (apply_op op c))) \<le> cache_cap (apply_op op c)"
    using Cons.prems by (simp add: length_apply_op_bound)
  ultimately have "int (length (cache_entries (fold apply_op ops (apply_op op c)))) \<le> cache_cap (apply_op op c)"
    by (rule Cons.IH)
  then show ?case by simp
qed

lemma cache_set_evicts:
  assumes "map_of (cache_entries c) k = None"
    and "cache_cap c \<le> int (length (cache_entries c))"
    and "cache_entries c \<noteq> []"
  shows "\<exists>v \<in> set (cache_entries c).
           (\<forall>x \<in> set (cache_entries c). ce_lastAccess (snd v) \<le> ce_lastAccess (snd x)) \<and>
           cache_entries (cache_set k a now c) =
             remove1 v (cache_entries c) @
             [(k, \<lparr>ce_answer = Some a,
                   ce_expiry = now + int (effectiveTTL (cache_defaultTTL c) a),
                   ce_lastAccess = now\<rparr>)] \<and>
           length (cache_entries (cache_set k a now c)) = length (cache_entries c)"
proof -
  from assms(3) obtain v where v: "lru_victim (cache_entries c) = Some v"
    using lru_victim_None_iff [of "cache_entries c"] by (cases "lru_victim (cache_entries c)") auto
  have in_es: "v \<in> set (cache_entries c)" using v by (rule lru_victim_in)
  have least: "\<forall>x \<in> set (cache_entries c). ce_lastAccess (snd v) \<le> ce_lastAccess (snd x)"
    using v by (blast intro: lru_victim_least)
  have es: "cache_entries (cache_set k a now c) =
             remove1 v (cache_entries c) @
             [(k, \<lparr>ce_answer = Some a,
                   ce_expiry = now + int (effectiveTTL (cache_defaultTTL c) a),
                   ce_lastAccess = now\<rparr>)]"
    using assms(1,2) v by (simp add: cache_set_def Let_def evict_lru_def)
  have "0 < length (cache_entries c)" using assms(3) by simp
  then have "length (cache_entries (cache_set k a now c)) = length (cache_entries c)"
    using in_es by (simp add: es length_remove1)
  with in_es least es show ?thesis by blast
qed

lemma set_update_subset: "set (AList.update k v es) \<subseteq> insert (k, v) (set es)"
  by (induction es) auto

lemma update_tail: "fst x \<noteq> k \<Longrightarrow> AList.update k v (x # rest) = x # AList.update k v rest"
  by (cases x) simp

lemma keyset_lookup [simp]: "keyset (snd (cache_lookup k now c)) = keyset c"
  by (auto simp: keyset_def cache_lookup_def dom_update split: option.splits dest: map_of_Some_key)

lemma keyset_set_present: "map_of (cache_entries c) k = Some e \<Longrightarrow> keyset (cache_set k a now c) = keyset c"
  by (auto simp: keyset_def cache_set_def Let_def dom_update dest: map_of_Some_key)

lemma keyset_phase2: "set (set_keys ops) \<subseteq> keyset c \<Longrightarrow> keyset (run_ops ops c) = keyset c"
  unfolding run_ops_def
proof (induction ops arbitrary: c)
  case Nil
  then show ?case by simp
next
  case (Cons x ops)
  obtain t oper where x: "x = (t, oper)" by (cases x)
  show ?case
  proof (cases oper)
    case (Lookup k)
    with x Cons.prems have "set (set_keys ops) \<subseteq> keyset (apply_op x c)" by simp
    then have "keyset (fold apply_op ops (apply_op x c)) = keyset (apply_op x c)" by (rule Cons.IH)
    with x Lookup show ?thesis by simp
  next
    case (Set k a)
    with x Cons.prems have "k \<in> keyset c" by simp
    then obtain e where "map_of (cache_entries c) k = Some e"
      by (metis keyset_def map_of_eq_None_iff not_Some_eq)
    then have ks: "keyset (apply_op x c) = keyset c"
      using x Set by (simp add: keyset_set_present)
    with x Set Cons.prems have "set (set_keys ops) \<subseteq> keyset (apply_op x c)" by simp
    then have "keyset (fold apply_op ops (apply_op x c)) = keyset (apply_op x c)" by (rule Cons.IH)
    with ks show ?thesis by simp
  qed
qed

lemma populated_lookup: "populated c \<Longrightarrow> populated (snd (cache_lookup k now c))"
proof -
  assume p: "populated c"
  show ?thesis
  proof (cases "map_of (cache_entries c) k")
    case None
    with p show ?thesis by (simp add: cache_lookup_def)
  next
    case (Some e)
    show ?thesis
    proof (cases "ce_answer e")
      case None
      with Some p show ?thesis by (simp add: cache_lookup_def)
    next
      case (Some a)
      have "set (AList.update k (e\<lparr>ce_lastAccess := now\<rparr>) (cache_entries c))
              \<subseteq> insert (k, e\<lparr>ce_lastAccess := now\<rparr>) (set (cache_entries c))"
        by (rule set_update_subset)
      with p Some \<open>map_of (cache_entries c) k = Some e\<close> show ?thesis
        by (auto simp: populated_def cache_lookup_def)
    qed
  qed
qed

lemma set_evict_lru_subset: "set (evict_lru es) \<subseteq> set es"
  using set_remove1_subset by (fastforce simp: evict_lru_def split: option.splits)

lemma populated_set: "populated c \<Longrightarrow> populated (cache_set k a now c)"
proof -
  assume p: "populated c"
  let ?e = "\<lparr>ce_answer = Some a, ce_expiry = now + int (effectiveTTL (cache_defaultTTL c) a),
             ce_lastAccess = now\<rparr>"
  have "set (cache_entries (cache_set k a now c)) \<subseteq> insert (k, ?e) (set (cache_entries c))"
    using set_update_subset [of k ?e "cache_entries c"] set_evict_lru_subset [of "cache_entries c"]
    by (auto simp: cache_set_def Let_def split: option.splits)
  with p show ?thesis by (auto simp: populated_def)
qed

lemma populated_run_ops: "populated c \<Longrightarrow> populated (run_ops ops c)"
  unfolding run_ops_def
proof (induction ops arbitrary: c)
  case Nil
  then show ?case by simp
next
  case (Cons x ops)
  obtain t oper where x: "x = (t, oper)" by (cases x)
  have "populated (apply_op x c)"
    using Cons.prems x by (cases oper) (simp_all add: populated_lookup populated_set)
  then show ?case by (simp add: Cons.IH)
qed

lemma lookup_present:
  "populated c \<Longrightarrow> k \<in> keyset c \<Longrightarrow> fst (fst (cache_lookup k now c)) \<noteq> None"
proof -
  assume p: "populated c" and k: "k \<in> keyset c"
  then obtain e where e: "map_of (cache_entries c) k = Some e"
    by (metis keyset_def map_of_eq_None_iff not_Some_eq)
  then have "(k, e) \<in> set (cache_entries c)" by (rule map_of_SomeD)
  with p obtain a where "ce_answer e = Some a" by (fastforce simp: populated_def)
  with e show ?thesis by (simp add: cache_lookup_def)
qed

lemma lookup_absent: "k \<notin> keyset c \<Longrightarrow> fst (fst (cache_lookup k now c)) = None"
proof -
  assume "k \<notin> keyset c"
  then have "map_of (cache_entries c) k = None"
    by (simp add: keyset_def map_of_eq_None_iff)
  then show ?thesis by (simp add: cache_lookup_def)
qed


lemma oldest_first_update:
  assumes "oldest_first k1 t1 c" and "k \<noteq> k1" and "t1 \<le> ce_lastAccess v"
    and "map_of (cache_entries c) k = Some e"
  shows "oldest_first k1 t1 (c\<lparr>cache_entries := AList.update k v (cache_entries c)\<rparr>)"
proof -
  from assms(1) obtain x rest where es: "cache_entries c = x # rest"
    by (cases "cache_entries c") (simp_all add: oldest_first_def)
  with assms(1) have x: "fst x = k1" "ce_lastAccess (snd x) = t1"
    and rest: "\<forall>y \<in> set rest. t1 \<le> ce_lastAccess (snd y)"
    and d: "distinct (map fst (cache_entries c))"
    and len: "int (length (cache_entries c)) \<le> cache_cap c"
    by (auto simp: oldest_first_def)
  have upd: "AList.update k v (cache_entries c) = x # AList.update k v rest"
    using es x(1) assms(2) by (simp add: update_tail)
  have "\<forall>y \<in> set (AList.update k v rest). t1 \<le> ce_lastAccess (snd y)"
    using set_update_subset [of k v rest] rest assms(3) by auto
  moreover have "distinct (map fst (AList.update k v (cache_entries c)))"
    using d by (rule distinct_update)
  moreover have "length (AList.update k v (cache_entries c)) = length (cache_entries c)"
    using assms(4) by (rule length_update_present)
  ultimately show ?thesis
    using x len upd by (simp add: oldest_first_def)
qed

lemma oldest_first_append:
  assumes "oldest_first k1 t1 c" and "t1 \<le> ce_lastAccess v"
    and "map_of (cache_entries c) k = None"
    and "int (length (cache_entries c)) < cache_cap c"
  shows "oldest_first k1 t1 (c\<lparr>cache_entries := cache_entries c @ [(k, v)]\<rparr>)"
proof -
  from assms(1) obtain x rest where es: "cache_entries c = x # rest"
    by (cases "cache_entries c") (simp_all add: oldest_first_def)
  have "k \<notin> fst ` set (cache_entries c)"
    using assms(3) by (simp add: map_of_eq_None_iff)
  with assms es show ?thesis
    by (auto simp: oldest_first_def)
qed

lemma oldest_first_keys:
  assumes "oldest_first k1 t1 c"
  shows "k1 \<in> keyset c" and "card (keyset c) = length (cache_entries c)"
    and "card (keyset c - {k1}) = length (cache_entries c) - 1"
    and "int (length (cache_entries c)) \<le> cache_cap c"
    and "evict_lru (cache_entries c) = tl (cache_entries c)"
    and "fst ` set (tl (cache_entries c)) = keyset c - {k1}"
proof -
  from assms obtain x rest where es: "cache_entries c = x # rest"
    by (cases "cache_entries c") (simp_all add: oldest_first_def)
  with assms have x: "fst x = k1" "ce_lastAccess (snd x) = t1"
    and rest: "\<forall>y \<in> set rest. t1 \<le> ce_lastAccess (snd y)"
    and d: "distinct (map fst (cache_entries c))"
    and len: "int (length (cache_entries c)) \<le> cache_cap c"
    by (auto simp: oldest_first_def)
  show k1: "k1 \<in> keyset c" using es x by (simp add: keyset_def)
  have "card (set (map fst (cache_entries c))) = length (map fst (cache_entries c))"
    using d by (rule distinct_card)
  then show c: "card (keyset c) = length (cache_entries c)" by (simp add: keyset_def)
  have "finite (keyset c)" by (simp add: keyset_def)
  with k1 c show "card (keyset c - {k1}) = length (cache_entries c) - 1" by simp
  show "int (length (cache_entries c)) \<le> cache_cap c" by (rule len)
  have "lru_victim (x # rest) = Some x"
    using rest x(2) by (intro lru_victim_head) simp
  then show "evict_lru (cache_entries c) = tl (cache_entries c)"
    by (simp add: es evict_lru_def)
  show "fst ` set (tl (cache_entries c)) = keyset c - {k1}"
    using d es x(1) by (auto simp: keyset_def)
qed

lemma scenario_gen:
  assumes "oldest_first k1 t1 c"
    and "\<forall>x \<in> set ops. t1 \<le> fst x \<and> op_key (snd x) \<noteq> k1"
    and "card ((keyset c - {k1}) \<union> set (set_keys ops)) = nat (cache_cap c)"
  shows "keyset (run_ops ops c) = (keyset c - {k1}) \<union> set (set_keys ops)"
  using assms
proof (induction ops arbitrary: c)
  case Nil
  from oldest_first_keys(1,3,4) [OF Nil.prems(1)] Nil.prems(3)
  have "int (length (cache_entries c) - 1) = cache_cap c \<or> cache_cap c < 0"
    and "int (length (cache_entries c)) \<le> cache_cap c"
    and "cache_entries c \<noteq> []"
    by (auto simp: keyset_def)
  then have False by (cases "cache_entries c") auto
  then show ?case ..
next
  case (Cons x ops)
  obtain t oper where x: "x = (t, oper)" by (cases x)
  from Cons.prems(2) x have t: "t1 \<le> t" and key: "op_key oper \<noteq> k1"
    and ops: "\<forall>x \<in> set ops. t1 \<le> fst x \<and> op_key (snd x) \<noteq> k1"
    by simp_all
  have run: "run_ops (x # ops) c = run_ops ops (apply_op x c)"
    by (simp add: run_ops_def)
  have stay: "keyset (run_ops (x # ops) c) = (keyset c - {k1}) \<union> set (set_keys (x # ops))"
    if o: "oldest_first k1 t1 (apply_op x c)"
      and ks: "keyset (apply_op x c) - {k1} \<union> set (set_keys ops) = keyset c - {k1} \<union> set (set_keys (x # ops))"
  proof -
    have "card ((keyset (apply_op x c) - {k1}) \<union> set (set_keys ops)) = nat (cache_cap (apply_op x c))"
      using Cons.prems(3) ks by simp
    with o ops have "keyset (run_ops ops (apply_op x c)) = (keyset (apply_op x c) - {k1}) \<union> set (set_keys ops)"
      by (intro Cons.IH)
    with run ks show ?thesis by simp
  qed
  show ?case
  proof (cases oper)
    case (Lookup k)
    with key have k: "k \<noteq> k1" by simp
    have "oldest_first k1 t1 (snd (cache_lookup k t c))"
    proof (cases "map_of (cache_entries c) k")
      case None
      with Cons.prems(1) show ?thesis by (simp add: cache_lookup_def)
    next
      case (Some e)
      show ?thesis
      proof (cases "ce_answer e")
        case None
        with Some Cons.prems(1) show ?thesis by (simp add: cache_lookup_def)
      next
        case (Some a)
        have "oldest_first k1 t1 (c\<lparr>cache_entries := AList.update k (e\<lparr>ce_lastAccess := t\<rparr>) (cache_entries c)\<rparr>)"
          using Cons.prems(1) k t \<open>map_of (cache_entries c) k = Some e\<close>
          by (intro oldest_first_update [where e = e]) simp_all
        with Some \<open>map_of (cache_entries c) k = Some e\<close> show ?thesis
          by (simp add: cache_lookup_def)
      qed
    qed
    with x Lookup show ?thesis by (intro stay) simp_all
  next
    case (Set k a)
    with key have k: "k \<noteq> k1" by simp
    let ?e = "\<lparr>ce_answer = Some a, ce_expiry = t + int (effectiveTTL (cache_defaultTTL c) a),
               ce_lastAccess = t\<rparr>"
    show ?thesis
    proof (cases "map_of (cache_entries c) k")
      case (Some e)
      have "oldest_first k1 t1 (c\<lparr>cache_entries := AList.update k ?e (cache_entries c)\<rparr>)"
        using Cons.prems(1) k t Some by (intro oldest_first_update [where e = e]) simp_all
      with Some have o: "oldest_first k1 t1 (cache_set k a t c)"
        by (simp add: cache_set_def Let_def)
      have "keyset (cache_set k a t c) = keyset c" using Some by (rule keyset_set_present)
      moreover have "k \<in> keyset c" using Some by (simp add: keyset_def map_of_Some_key)
      ultimately have "keyset (apply_op x c) - {k1} \<union> set (set_keys ops) =
          keyset c - {k1} \<union> set (set_keys (x # ops))"
        using x Set k by auto
      with o x Set show ?thesis by (intro stay) simp_all
    next
      case None
      show ?thesis
      proof (cases "cache_cap c \<le> int (length (cache_entries c))")
        case False
        then have es: "cache_entries (cache_set k a t c) = cache_entries c @ [(k, ?e)]"
          using None by (simp add: cache_set_def Let_def)
        have "oldest_first k1 t1 (c\<lparr>cache_entries := cache_entries c @ [(k, ?e)]\<rparr>)"
          using Cons.prems(1) t None False by (intro oldest_first_append) simp_all
        with None False have o: "oldest_first k1 t1 (cache_set k a t c)"
          by (simp add: cache_set_def Let_def)
        have "keyset (cache_set k a t c) = insert k (keyset c)"
          by (simp add: es keyset_def)
        then have "keyset (apply_op x c) - {k1} \<union> set (set_keys ops) =
            keyset c - {k1} \<union> set (set_keys (x # ops))"
          using x Set k by auto
        with o x Set show ?thesis by (intro stay) simp_all
      next
        case True
        note keys = oldest_first_keys [OF Cons.prems(1)]
        from True keys(4) have full: "int (length (cache_entries c)) = cache_cap c" by simp
        have es: "cache_entries (cache_set k a t c) = tl (cache_entries c) @ [(k, ?e)]"
          using None True keys(5) by (simp add: cache_set_def Let_def)
        have ks: "keyset (cache_set k a t c) = insert k (keyset c - {k1})"
          using keys(6) by (simp add: es keyset_def)
        have "card (insert k (keyset c - {k1})) = Suc (card (keyset c - {k1}))"
          using None by (intro card_insert_disjoint) (simp_all add: keyset_def map_of_eq_None_iff)
        also have "\<dots> = length (cache_entries c)"
          using keys(1,2,3) by (cases "cache_entries c") (simp_all add: keyset_def)
        finally have card1: "card (keyset (cache_set k a t c)) = nat (cache_cap c)"
          using full ks by simp
        have eq: "keyset c - {k1} \<union> set (set_keys (x # ops)) =
            keyset (cache_set k a t c) \<union> set (set_keys ops)"
          using x Set ks by auto
        have "keyset (cache_set k a t c) \<union> set (set_keys ops) = keyset (cache_set k a t c)"
        proof (rule sym, rule card_subset_eq)
          show "finite (keyset (cache_set k a t c) \<union> set (set_keys ops))"
            by (simp add: keyset_def)
          show "keyset (cache_set k a t c) \<subseteq> keyset (cache_set k a t c) \<union> set (set_keys ops)"
            by blast
          show "card (keyset (cache_set k a t c)) = card (keyset (cache_set k a t c) \<union> set (set_keys ops))"
            using card1 Cons.prems(3) eq by simp
        qed
        then have sub: "set (set_keys ops) \<subseteq> keyset (cache_set k a t c)" by blast
        then have "keyset (run_ops ops (cache_set k a t c)) = keyset (cache_set k a t c)"
          by (rule keyset_phase2)
        with run x Set eq sub show ?thesis by auto
      qed
    qed
  qed
qed

lemma set_keys_subset: "set (set_keys ops) \<subseteq> (\<lambda>x. op_key (snd x)) ` set ops"
proof (induction ops)
  case Nil
  then show ?case by simp
next
  case (Cons x ops)
  obtain t oper where "x = (t, oper)" by (cases x)
  with Cons show ?case by (cases oper) auto
qed

lemma first_set_oldest_first:
  "1 \<le> cap \<Longrightarrow> oldest_first k1 t1 (cache_set k1 a1 t1 (new_cache cap dflt))"
  by (simp add: oldest_first_def cache_set_def new_cache_def)

lemma scenario_keys:
  assumes "1 \<le> cap"
    and "\<forall>x \<in> set rest. t1 \<le> fst x \<and> op_key (snd x) \<noteq> k1"
    and "card (set (set_keys rest)) = nat cap"
  shows "keyset (run_ops ((t1, Set k1 a1) # rest) (new_cache cap dflt)) = set (set_keys rest)"
    and "k1 \<notin> set (set_keys rest)"
    and "populated (run_ops ((t1, Set k1 a1) # rest) (new_cache cap dflt))"
proof -
  let ?c1 = "cache_set k1 a1 t1 (new_cache cap dflt)"
  have c1: "oldest_first k1 t1 ?c1" using assms(1) by (rule first_set_oldest_first)
  have cc: "cache_cap (new_cache cap dflt) = cap" by (simp add: new_cache_def)
  have k: "keyset ?c1 - {k1} = {}"
    using assms(1) by (simp add: keyset_def cache_set_def new_cache_def)
  have "keyset (run_ops rest ?c1) = (keyset ?c1 - {k1}) \<union> set (set_keys rest)"
    using c1 assms(2) by (rule scenario_gen) (simp add: k assms(3) cc)
  then show "keyset (run_ops ((t1, Set k1 a1) # rest) (new_cache cap dflt)) = set (set_keys rest)"
    by (simp add: k run_ops_def)
  show "k1 \<notin> set (set_keys rest)"
    using set_keys_subset [of rest] assms(2) by auto
  have "populated (new_cache cap dflt)" by (simp add: populated_def new_cache_def)
  then show "populated (run_ops ((t1, Set k1 a1) # rest) (new_cache cap dflt))"
    by (rule populated_run_ops)
qed

text \<open>
  C6, as amended: for a capacity of at least one, (1) after every sequence of lookups and
  sets on a new cache the cache holds at most \<open>CacheCap\<close> entries; (2) a set of a brand-new
  key on a full cache evicts exactly one entry, one whose last-access timestamp is the
  least, and appends the new one, so the number of entries stays the same; (3) after a
  first question is set on a new cache and then, at times not before that, \<open>CacheCap\<close>
  other distinct questions are set (each any number of times) and any questions but the
  first are looked up, the first question is absent and the \<open>CacheCap\<close> others are present.
\<close>

theorem cache_capacity_and_eviction:
  assumes "1 \<le> cap"
  shows "int (length (cache_entries (run_ops ops (new_cache cap dflt)))) \<le> cap
    \<and> (\<forall>c k a now.
          cache_cap c = cap \<and> int (length (cache_entries c)) = cap \<and>
          map_of (cache_entries c) k = None \<longrightarrow>
          (\<exists>v \<in> set (cache_entries c).
             (\<forall>x \<in> set (cache_entries c). ce_lastAccess (snd v) \<le> ce_lastAccess (snd x)) \<and>
             cache_entries (cache_set k a now c) =
               remove1 v (cache_entries c) @
               [(k, \<lparr>ce_answer = Some a,
                     ce_expiry = now + int (effectiveTTL (cache_defaultTTL c) a),
                     ce_lastAccess = now\<rparr>)] \<and>
             length (cache_entries (cache_set k a now c)) = length (cache_entries c)))
    \<and> (\<forall>k1 a1 t1 rest now.
          (\<forall>x \<in> set rest. t1 \<le> fst x \<and> op_key (snd x) \<noteq> k1) \<and>
          card (set (set_keys rest)) = nat cap \<longrightarrow>
          fst (fst (cache_lookup k1 now (run_ops ((t1, Set k1 a1) # rest) (new_cache cap dflt)))) = None \<and>
          (\<forall>k \<in> set (set_keys rest).
             fst (fst (cache_lookup k now (run_ops ((t1, Set k1 a1) # rest) (new_cache cap dflt)))) \<noteq> None))"
proof (intro conjI allI impI)
  have "int (length (cache_entries (run_ops ops (new_cache cap dflt)))) \<le> cache_cap (new_cache cap dflt)"
    using assms by (intro length_run_ops_bound) (simp_all add: new_cache_def)
  then show "int (length (cache_entries (run_ops ops (new_cache cap dflt)))) \<le> cap"
    by (simp add: new_cache_def)
next
  fix c :: dnsCache and k a now
  assume h: "cache_cap c = cap \<and> int (length (cache_entries c)) = cap \<and>
          map_of (cache_entries c) k = None"
  with assms have "cache_entries c \<noteq> []" by auto
  with h show "\<exists>v \<in> set (cache_entries c).
             (\<forall>x \<in> set (cache_entries c). ce_lastAccess (snd v) \<le> ce_lastAccess (snd x)) \<and>
             cache_entries (cache_set k a now c) =
               remove1 v (cache_entries c) @
               [(k, \<lparr>ce_answer = Some a,
                     ce_expiry = now + int (effectiveTTL (cache_defaultTTL c) a),
                     ce_lastAccess = now\<rparr>)] \<and>
             length (cache_entries (cache_set k a now c)) = length (cache_entries c)"
    by (intro cache_set_evicts) simp_all
next
  fix k1 a1 t1 rest now
  assume h: "(\<forall>x \<in> set rest. t1 \<le> fst x \<and> op_key (snd x) \<noteq> k1) \<and>
          card (set (set_keys rest)) = nat cap"
  then have ok: "\<forall>x \<in> set rest. t1 \<le> fst x \<and> op_key (snd x) \<noteq> k1"
    and card: "card (set (set_keys rest)) = nat cap"
    by simp_all
  note keys = scenario_keys [OF assms ok card]
  from keys(1,2) show "fst (fst (cache_lookup k1 now (run_ops ((t1, Set k1 a1) # rest) (new_cache cap dflt)))) = None"
    by (intro lookup_absent) simp
  show "\<forall>k \<in> set (set_keys rest).
      fst (fst (cache_lookup k now (run_ops ((t1, Set k1 a1) # rest) (new_cache cap dflt)))) \<noteq> None"
    using keys(1,3) by (simp add: lookup_present)
qed

theorem cache_capacity_and_eviction_witness:
  "(1::int) \<le> 2
   \<and> length (cache_entries (run_ops
        [(1, Set (key_example ''a'') success_example), (2, Set (key_example ''b'') success_example),
         (3, Lookup (key_example ''b'')), (4, Set (key_example ''c'') success_example)]
        (new_cache 2 30))) = 2
   \<and> fst (fst (cache_lookup (key_example ''a'') 5 (run_ops
        [(1, Set (key_example ''a'') success_example), (2, Set (key_example ''b'') success_example),
         (3, Lookup (key_example ''b'')), (4, Set (key_example ''c'') success_example)]
        (new_cache 2 30)))) = None
   \<and> fst (fst (cache_lookup (key_example ''b'') 5 (run_ops
        [(1, Set (key_example ''a'') success_example), (2, Set (key_example ''b'') success_example),
         (3, Lookup (key_example ''b'')), (4, Set (key_example ''c'') success_example)]
        (new_cache 2 30)))) \<noteq> None
   \<and> fst (fst (cache_lookup (key_example ''c'') 5 (run_ops
        [(1, Set (key_example ''a'') success_example), (2, Set (key_example ''b'') success_example),
         (3, Lookup (key_example ''b'')), (4, Set (key_example ''c'') success_example)]
        (new_cache 2 30)))) \<noteq> None"
proof -
  let ?rest = "[(2::int, Set (key_example ''b'') success_example),
         (3, Lookup (key_example ''b'')), (4, Set (key_example ''c'') success_example)]"
  have cap: "(1::int) \<le> 2" by simp
  have ok: "\<forall>x \<in> set ?rest. 1 \<le> fst x \<and> op_key (snd x) \<noteq> key_example ''a''"
    by (simp add: key_example_def)
  have card: "card (set (set_keys ?rest)) = nat 2"
    by (simp add: key_example_def)
  have len: "length (cache_entries (run_ops ((1, Set (key_example ''a'') success_example) # ?rest)
        (new_cache 2 30))) = 2"
    by (simp add: run_ops_def cache_set_def cache_lookup_def new_cache_def key_example_def
        evict_lru_def Let_def)
  from cache_capacity_and_eviction [OF cap, of "[]" 30] ok card
  have "fst (fst (cache_lookup (key_example ''a'') 5
          (run_ops ((1, Set (key_example ''a'') success_example) # ?rest) (new_cache 2 30)))) = None \<and>
        (\<forall>k \<in> set (set_keys ?rest).
          fst (fst (cache_lookup k 5
            (run_ops ((1, Set (key_example ''a'') success_example) # ?rest) (new_cache 2 30)))) \<noteq> None)"
    by blast
  with cap len show ?thesis by simp
qed

text \<open>
  C6, as stated, fails for a capacity below one. With capacity zero, \<open>set\<close> creates the
  entry (section 4.3) and there is no existing entry to evict: after one set the cache
  holds one entry, more than its capacity, and the first (and only) question inserted is
  present. With a negative capacity even the new, empty cache holds more entries than its
  capacity.
\<close>

theorem cache_capacity_counterexample:
  "cache_cap (run_ops [(1, Set (key_example ''a'') success_example)] (new_cache 0 30)) = 0
   \<and> length (cache_entries (run_ops [(1, Set (key_example ''a'') success_example)] (new_cache 0 30))) = 1
   \<and> fst (cache_lookup (key_example ''a'') 1
        (run_ops [(1, Set (key_example ''a'') success_example)] (new_cache 0 30))) =
       (Some success_example, False)
   \<and> \<not> int (length (cache_entries (run_ops [] (new_cache (- 1) 30))))
         \<le> cache_cap (run_ops [] (new_cache (- 1) 30))"
  by (simp add: run_ops_def cache_set_def cache_lookup_def new_cache_def evict_lru_def)

end
